theory Spec2Isabelle
  imports Main "HOL-Library.Sublist" "HOL-Library.Multiset"
begin

section \<open>Dead-click crawler: batching, de-duplication, click classification\<close>

text \<open>
  A shallow embedding of the core of the crawler: \<^verbatim>\<open>utils/element_utils.py\<close>
  (fingerprints, nested-duplicate removal, the dead-pattern test) and
  \<^verbatim>\<open>core/click_tester.py\<close> (batch partition, the per-element click test, the
  batch loop and the aggregation of results). Python strings are \<open>string\<close> (lists of
  characters), a key that a dict may lack is an \<open>option\<close>, every exception the code
  can raise is a value of a sum type, and the browser driver is a record of the answers
  it gives at each call site.
\<close>

subsection \<open>Batch partition (\<^verbatim>\<open>_divide_elements_into_batches\<close>)\<close>

datatype py_error = ZeroDivisionError

text \<open>Python's \<^verbatim>\<open>xs[start:stop]\<close> for \<open>0 \<le> start\<close>: out-of-range bounds are clamped.\<close>

definition slice :: "'a list \<Rightarrow> nat \<Rightarrow> nat \<Rightarrow> 'a list" where
  "slice xs start stop = take (stop - start) (drop start xs)"

text \<open>
  One iteration of the loop over \<^verbatim>\<open>range(num_batches)\<close>; the state is
  \<^verbatim>\<open>(start_idx, batches)\<close>. An empty batch is not appended.
\<close>

definition batch_step :: "'a list \<Rightarrow> nat \<Rightarrow> nat \<Rightarrow> nat \<Rightarrow> nat \<times> 'a list list \<Rightarrow> nat \<times> 'a list list" where
  "batch_step elements batch_size remainder i st =
     (case st of (start_idx, batches) \<Rightarrow>
        (let current_batch_size = batch_size + (if i < remainder then 1 else 0);
             end_idx = start_idx + current_batch_size;
             batch = slice elements start_idx end_idx
         in (end_idx, if batch \<noteq> [] then batches @ [batch] else batches)))"

text \<open>
  \<^verbatim>\<open>num_batches\<close> is \<^verbatim>\<open>len(driver_pool)\<close> at the only call site, hence a natural
  number; \<^verbatim>\<open>len(elements) // 0\<close> raises \<^verbatim>\<open>ZeroDivisionError\<close>.
\<close>

definition divide_elements_into_batches :: "'a list \<Rightarrow> nat \<Rightarrow> py_error + 'a list list" where
  "divide_elements_into_batches elements num_batches =
     (if num_batches = 0 then Inl ZeroDivisionError
      else (let batch_size = length elements div num_batches;
                remainder = length elements mod num_batches
            in Inr (snd (fold (batch_step elements batch_size remainder) [0..<num_batches] (0, [])))))"

text \<open>
  The start index of the \<open>k\<close>-th batch when the quotient is \<open>q\<close> and the remainder \<open>r\<close>:
  the value of \<^verbatim>\<open>start_idx\<close> after \<open>k\<close> iterations.
\<close>

definition off :: "nat \<Rightarrow> nat \<Rightarrow> nat \<Rightarrow> nat" where
  "off q r k = k * q + min k r"

subsection \<open>Element descriptors\<close>

text \<open>
  A descriptor is a Python dict. Each key the modelled code reads is a field; \<open>None\<close> means
  that the key is absent (or holds Python's \<^verbatim>\<open>None\<close>), so that \<^verbatim>\<open>d.get(k, '')\<close> and
  \<^verbatim>\<open>d.get(k) or ''\<close> are \<open>get_str\<close>. The keys \<^verbatim>\<open>id\<close> and \<^verbatim>\<open>text\<close> are the fields
  \<open>id_attr\<close> and \<open>text_attr\<close>. Strings are lists of characters; \<open>length\<close> is Python's
  \<^verbatim>\<open>len\<close> for ASCII text.
\<close>

record descriptor =
  tag_name :: "string option"
  id_attr :: "string option"
  class_names :: "string option"
  text_attr :: "string option"
  xpath :: "string option"
  unique_id :: "int option"
  href :: "string option"
  onclick :: "string option"
  is_carousel_element :: "bool option"

text \<open>
  \<^verbatim>\<open>d.get(k, '')\<close> for a string-valued key, and the truth value Python gives to \<^verbatim>\<open>d.get(k)\<close>
  (a missing key and the empty string are both false).
\<close>

definition get_str :: "string option \<Rightarrow> string" where
  "get_str v = (case v of None \<Rightarrow> [] | Some s \<Rightarrow> s)"

definition truthy_str :: "string option \<Rightarrow> bool" where
  "truthy_str v = (case v of None \<Rightarrow> False | Some s \<Rightarrow> s \<noteq> [])"

text \<open>
  \<^verbatim>\<open>create_unique_id\<close> (element_utils.py, lines 192-199). \<^verbatim>\<open>sep.join(...)\<close> is \<open>join\<close>;
  \<^verbatim>\<open>str(c)\<close> is the identity on strings. Python's built-in \<^verbatim>\<open>hash\<close> is not part of the
  repository: it is the parameter \<open>py_hash\<close>.
\<close>

fun join :: "string \<Rightarrow> string list \<Rightarrow> string" where
  "join sep [] = []"
| "join sep [x] = x"
| "join sep (x # y # ys) = x @ sep @ join sep (y # ys)"

definition create_unique_id :: "(string \<Rightarrow> int) \<Rightarrow> descriptor \<Rightarrow> int" where
  "create_unique_id py_hash element_info =
     (let components = [get_str (tag_name element_info),
                        get_str (id_attr element_info),
                        get_str (class_names element_info),
                        take 50 (get_str (text_attr element_info))]
      in py_hash (join ''|'' components))"

text \<open>
  \<^verbatim>\<open>is_dead_click_by_href\<close> (element_utils.py, lines 212-227). \<^verbatim>\<open>s.replace(' ', '')\<close> is
  \<open>remove_spaces\<close> and \<^verbatim>\<open>s.lower()\<close> is \<open>py_lower\<close>, which maps the ASCII capitals to small
  letters. \<^verbatim>\<open>x in list\<close> is membership, \<^verbatim>\<open>s.startswith(p)\<close> is \<open>prefix p s\<close>.
\<close>

definition remove_spaces :: "string \<Rightarrow> string" where
  "remove_spaces s = filter (\<lambda>c. c \<noteq> CHR '' '') s"

definition lower_char :: "char \<Rightarrow> char" where
  "lower_char c = (let n = (of_char c :: nat) in if 65 \<le> n \<and> n \<le> 90 then char_of (n + 32) else c)"

definition py_lower :: "string \<Rightarrow> string" where
  "py_lower s = map lower_char s"

definition dead_patterns :: "string list" where
  "dead_patterns = ['''', ''#'', ''javascript:void(0)'', ''javascript:void(0);'', ''javascript:'',
                    ''javascript::void(0)'', ''void(0)'', ''undefined'', ''null'', ''about:blank'']"

definition is_dead_click_by_href :: "descriptor \<Rightarrow> bool" where
  "is_dead_click_by_href element_info =
     (let href_n = py_lower (remove_spaces (get_str (href element_info)));
          onclick_n = py_lower (remove_spaces (get_str (onclick element_info)))
      in if href_n \<in> set dead_patterns then True
         else if prefix ''javascript:'' href_n \<or> prefix ''void(0)'' href_n then True
         else if onclick_n \<in> set [''void(0)'', ''javascript:void(0)'', ''''] then True
         else if prefix ''javascript:'' onclick_n then True
         else False)"

text \<open>
  \<^verbatim>\<open>advanced_deduplication\<close> (element_utils.py, lines 103-129). \<^verbatim>\<open>sub in s\<close> on strings is
  \<open>sublist\<close>, \<^verbatim>\<open>s.count('/')\<close> is \<open>count_list\<close>. \<open>check_pair\<close> is the body of the inner
  loop for one pair \<^verbatim>\<open>(parent_candidate, child_candidate)\<close>, with the set
  \<^verbatim>\<open>elements_to_discard\<close> as its state; both \<^verbatim>\<open>continue\<close> statements return the set as it is.
\<close>

definition is_special_container :: "descriptor \<Rightarrow> bool" where
  "is_special_container parent_candidate =
     sublist ''variant-tabs__variant-list__item'' (get_str (class_names parent_candidate))"

definition check_pair :: "descriptor \<Rightarrow> descriptor \<Rightarrow> int option set \<Rightarrow> int option set" where
  "check_pair parent_candidate child_candidate elements_to_discard =
     (let parent_id = unique_id parent_candidate;
          child_id = unique_id child_candidate
      in if parent_id \<in> elements_to_discard \<or> child_id \<in> elements_to_discard then elements_to_discard
         else (let parent_xpath = get_str (xpath parent_candidate);
                   child_xpath = get_str (xpath child_candidate)
               in if parent_xpath = [] \<or> child_xpath = [] then elements_to_discard
                  else if is_special_container parent_candidate \<and> prefix parent_xpath child_xpath
                          \<and> child_xpath \<noteq> parent_xpath
                       then insert child_id elements_to_discard
                  else if prefix parent_xpath child_xpath
                          \<and> count_list child_xpath CHR ''/'' = count_list parent_xpath CHR ''/'' + 1
                       then (let has_same_text = (truthy_str (text_attr parent_candidate)
                                     \<and> text_attr parent_candidate = text_attr child_candidate);
                                 has_same_class = (truthy_str (class_names parent_candidate)
                                     \<and> class_names parent_candidate = class_names child_candidate)
                             in if has_same_text \<or> has_same_class
                                then insert child_id elements_to_discard
                                else elements_to_discard)
                  else elements_to_discard))"

text \<open>
  The two loops \<^verbatim>\<open>for i in range(n)\<close> and \<^verbatim>\<open>for j in range(i + 1, n)\<close>; \<^verbatim>\<open>sorted\<close> is
  stable, as \<open>sort_key\<close> is. The result keeps the order of the input and drops every
  descriptor whose \<^verbatim>\<open>unique_id\<close> is in the set.
\<close>

definition inner_loop :: "descriptor list \<Rightarrow> nat \<Rightarrow> int option set \<Rightarrow> int option set" where
  "inner_loop sorted_elements i elements_to_discard =
     fold (\<lambda>j. check_pair (sorted_elements ! i) (sorted_elements ! j))
          [i + 1..<length sorted_elements] elements_to_discard"

definition discard_set :: "descriptor list \<Rightarrow> int option set" where
  "discard_set sorted_elements =
     fold (inner_loop sorted_elements) [0..<length sorted_elements] {}"

definition sorted_elements :: "descriptor list \<Rightarrow> descriptor list" where
  "sorted_elements elements = sort_key (\<lambda>x. length (get_str (xpath x))) elements"

definition advanced_deduplication :: "descriptor list \<Rightarrow> descriptor list" where
  "advanced_deduplication elements =
     (let elements_to_discard = discard_set (sorted_elements elements)
      in filter (\<lambda>elem. unique_id elem \<notin> elements_to_discard) elements)"



text \<open>
  A descriptor as \<^verbatim>\<open>extract_element_info\<close> builds it (no \<^verbatim>\<open>href\<close>, \<^verbatim>\<open>onclick\<close> or
  \<^verbatim>\<open>is_carousel_element\<close> key), from tag, class, text, XPath and fingerprint.
\<close>

definition mk :: "string \<Rightarrow> string \<Rightarrow> string \<Rightarrow> string \<Rightarrow> int \<Rightarrow> descriptor" where
  "mk t c tx xp u = \<lparr>tag_name = Some t, id_attr = Some [], class_names = Some c, text_attr = Some tx,
     xpath = Some xp, unique_id = Some u, href = None, onclick = None, is_carousel_element = None\<rparr>"

subsection \<open>The browser driver and the per-element click test\<close>

text \<open>
  Exceptions are values. \<^verbatim>\<open>str(e)\<close> is \<open>str_exn\<close>. The code distinguishes
  \<^verbatim>\<open>ElementClickInterceptedException\<close> from every other exception; Selenium's
  \<^verbatim>\<open>WebDriverWait\<close> ignores \<^verbatim>\<open>NoSuchElementException\<close> while it polls.
\<close>

datatype exn =
    ElementClickInterceptedException string
  | NoSuchElementException string
  | OtherException string

fun str_exn :: "exn \<Rightarrow> string" where
  "str_exn (ElementClickInterceptedException m) = m"
| "str_exn (NoSuchElementException m) = m"
| "str_exn (OtherException m) = m"

text \<open>
  The commands the test sends to the browser, in the order they are sent: a run of the
  re-location chain, the carousel override, the scroll, the pointer click and the script click.
\<close>

datatype action = Relocate | ForceVisible | ScrollIntoView | PointerClick | JsClick

text \<open>
  The browser is a record of the answers it gives, one field per call site of
  \<^verbatim>\<open>_test_element_click_with_driver\<close> (click_tester.py, lines 138-254); an answer is a value or
  an exception. \<open>locate d n\<close> is the \<open>n\<close>-th run of \<^verbatim>\<open>_find_element_by_info_with_driver\<close>
  (which catches everything and returns an element or \<^verbatim>\<open>None\<close>) with the answers of
  \<^verbatim>\<open>is_displayed()\<close> and \<^verbatim>\<open>is_enabled()\<close> on the element it found. \<open>body_hash_before\<close> and
  \<open>body_hash_after\<close> are the MD5 digests of \<^verbatim>\<open>document.body.innerHTML\<close>; \<open>polled_hashes\<close>
  are the digests that \<^verbatim>\<open>WebDriverWait(driver, 6).until\<close> sees before its timeout.
\<close>

record attempt =
  found :: "nat option"
  found_displayed :: "exn + bool"
  found_enabled :: "exn + bool"

record driver =
  now :: string
  current_url_before :: "exn + string"
  title_before :: "exn + string"
  body_hash_before :: "exn + string"
  locate :: "nat \<Rightarrow> attempt"
  scroll_into_view :: "exn + unit"
  displayed_after_scroll :: "exn + bool"
  enabled_after_scroll :: "exn + bool"
  pointer_click :: "exn + unit"
  js_click :: "exn + unit"
  polled_hashes :: "(exn + string) list"
  current_url_after :: "exn + string"
  title_after :: "exn + string"
  body_hash_after :: "exn + string"
  find_modals :: "exn + nat list"
  find_dropdowns :: "exn + nat list"

text \<open>
  The result dict of one click test.
\<close>

record result =
  element_info :: descriptor
  click_status :: string
  error_message :: string
  page_changed :: bool
  url_before :: string
  url_after :: string
  new_elements_appeared :: bool
  timestamp :: string
  dom_hash_before :: "string option"
  dom_hash_after :: "string option"

text \<open>
  Lines 159-165: up to three runs of the re-location chain. The loop leaves with \<^verbatim>\<open>break\<close> when
  the element is found, displayed and enabled (\<^verbatim>\<open>and\<close> evaluates left to right and stops at
  the first false operand); otherwise \<^verbatim>\<open>element\<close> keeps what the last run returned.
\<close>

fun relocate :: "(nat \<Rightarrow> attempt) \<Rightarrow> nat list \<Rightarrow> nat option \<Rightarrow> action list
    \<Rightarrow> (exn \<times> action list) + (nat option \<times> action list)" where
  "relocate loc [] element log = Inr (element, log)"
| "relocate loc (attempt_no # rest) element log =
     (let a = loc attempt_no; element' = found a; log' = log @ [Relocate]
      in case element' of
           None \<Rightarrow> relocate loc rest element' log'
         | Some h \<Rightarrow>
             (case found_displayed a of
                Inl e \<Rightarrow> Inl (e, log')
              | Inr False \<Rightarrow> relocate loc rest element' log'
              | Inr True \<Rightarrow>
                  (case found_enabled a of
                     Inl e \<Rightarrow> Inl (e, log')
                   | Inr False \<Rightarrow> relocate loc rest element' log'
                   | Inr True \<Rightarrow> Inr (element', log'))))"

text \<open>
  Lines 199-206: \<^verbatim>\<open>dom_changed\<close> is true when the wait returns, that is when a polled digest
  differs from \<^verbatim>\<open>dom_hash_before\<close>; a timeout or any other exception makes it false.
\<close>

fun wait_until_changed :: "string \<Rightarrow> (exn + string) list \<Rightarrow> bool" where
  "wait_until_changed dhb [] = False"
| "wait_until_changed dhb (Inr h # rest) = (if h \<noteq> dhb then True else wait_until_changed dhb rest)"
| "wait_until_changed dhb (Inl (NoSuchElementException m) # rest) = wait_until_changed dhb rest"
| "wait_until_changed dhb (Inl e # rest) = False"

text \<open>
  Lines 214-222: the modal and dropdown queries share one \<^verbatim>\<open>try\<close>; an exception keeps the lists
  assigned so far.
\<close>

definition probe_ui :: "driver \<Rightarrow> nat list \<times> nat list" where
  "probe_ui d =
     (case find_modals d of
        Inl e \<Rightarrow> ([], [])
      | Inr modals \<Rightarrow>
          (case find_dropdowns d of
             Inl e \<Rightarrow> (modals, [])
           | Inr dropdowns \<Rightarrow> (modals, dropdowns)))"

text \<open>
  Lines 223-246: the \<^verbatim>\<open>if\<close>/\<^verbatim>\<open>elif\<close> chain that sets the status.
\<close>

definition classify :: "descriptor \<Rightarrow> string \<Rightarrow> string \<Rightarrow> string \<Rightarrow> string \<Rightarrow> bool
    \<Rightarrow> nat list \<Rightarrow> nat list \<Rightarrow> result \<Rightarrow> result" where
  "classify element_info' initial_url initial_title current_url current_title dom_changed modals dropdowns r =
     (let is_suspicious = is_dead_click_by_href element_info'
      in if current_url \<noteq> initial_url
           then r\<lparr>click_status := ''active_navigation'', page_changed := True\<rparr>
         else if current_title \<noteq> initial_title
           then r\<lparr>click_status := ''active_title_change'', page_changed := True\<rparr>
         else if dom_changed
           then r\<lparr>click_status := ''active_dom_change''\<rparr>
         else if modals \<noteq> [] \<or> dropdowns \<noteq> []
           then r\<lparr>click_status := ''active_ui_change'', new_elements_appeared := True\<rparr>
         else if is_suspicious
           then r\<lparr>click_status := ''dead_click'',
                  error_message := ''Dead click: suspicious href or onclick and no visible effect''\<rparr>
         else r\<lparr>click_status := ''dead_click'',
                error_message := ''Dead click: no visible effect after click''\<rparr>)"

text \<open>
  Lines 153-197, up to the click. The block ends in one of three ways: an exception reaches the
  outer handler (\<open>Raised\<close>, with the result dict as it is then), the function returns early
  (\<open>Returned\<close>), or the click went through and the observation starts (\<open>Ready\<close>, with
  \<^verbatim>\<open>initial_url\<close>, \<^verbatim>\<open>initial_title\<close> and \<^verbatim>\<open>dom_hash_before\<close>). The block is split at its
  steps: \<open>pre_click\<close> (lines 153-157), \<open>locate_step\<close> (159-170), \<open>scroll_step\<close> (171-174),
  \<open>clickable_step\<close> (175-179) and \<open>click_step\<close> (181-197).
\<close>

datatype pre_click_outcome =
    Raised exn result "action list"
  | Returned result "action list"
  | Ready string string string result "action list"

definition click_step :: "driver \<Rightarrow> string \<Rightarrow> string \<Rightarrow> string \<Rightarrow> result \<Rightarrow> action list
    \<Rightarrow> pre_click_outcome" where
  "click_step d initial_url initial_title dhb r log =
     (case pointer_click d of
        Inr u \<Rightarrow> Ready initial_url initial_title dhb r (log @ [PointerClick])
      | Inl (ElementClickInterceptedException m) \<Rightarrow>
          (case js_click d of
             Inr u \<Rightarrow> Ready initial_url initial_title dhb r (log @ [PointerClick, JsClick])
           | Inl js_error \<Rightarrow>
               Returned (r\<lparr>click_status := ''click_intercepted'',
                           error_message := ''Click intercepted: '' @ str_exn js_error\<rparr>)
                        (log @ [PointerClick, JsClick]))
      | Inl e \<Rightarrow>
          Returned (r\<lparr>click_status := ''error'',
                      error_message := ''Error during click: '' @ str_exn e\<rparr>)
                   (log @ [PointerClick]))"

definition clickable_step :: "driver \<Rightarrow> string \<Rightarrow> string \<Rightarrow> string \<Rightarrow> result \<Rightarrow> action list
    \<Rightarrow> pre_click_outcome" where
  "clickable_step d initial_url initial_title dhb r log =
     (case displayed_after_scroll d of
        Inl e \<Rightarrow> Raised e r log
      | Inr False \<Rightarrow>
          Returned (r\<lparr>click_status := ''not_clickable'',
                      error_message := ''Element is not displayed or enabled''\<rparr>) log
      | Inr True \<Rightarrow>
          (case enabled_after_scroll d of
             Inl e \<Rightarrow> Raised e r log
           | Inr False \<Rightarrow>
               Returned (r\<lparr>click_status := ''not_clickable'',
                           error_message := ''Element is not displayed or enabled''\<rparr>) log
           | Inr True \<Rightarrow> click_step d initial_url initial_title dhb r log))"

definition scroll_step :: "descriptor \<Rightarrow> driver \<Rightarrow> string \<Rightarrow> string \<Rightarrow> string \<Rightarrow> result
    \<Rightarrow> action list \<Rightarrow> pre_click_outcome" where
  "scroll_step element_info' d initial_url initial_title dhb r log =
     (let log1 = (if is_carousel_element element_info' = Some True then log @ [ForceVisible] else log);
          log2 = log1 @ [ScrollIntoView]
      in case scroll_into_view d of
           Inl e \<Rightarrow> Raised e r log2
         | Inr u \<Rightarrow> clickable_step d initial_url initial_title dhb r log2)"

definition locate_step :: "descriptor \<Rightarrow> driver \<Rightarrow> string \<Rightarrow> string \<Rightarrow> string \<Rightarrow> result
    \<Rightarrow> pre_click_outcome" where
  "locate_step element_info' d initial_url initial_title dhb r =
     (case relocate (locate d) [0, 1, 2] None [] of
        Inl (e, log) \<Rightarrow> Raised e r log
      | Inr (None, log) \<Rightarrow>
          Returned (r\<lparr>click_status := ''element_not_found'',
                      error_message := ''Element could not be located for clicking (after retries)''\<rparr>) log
      | Inr (Some element, log) \<Rightarrow> scroll_step element_info' d initial_url initial_title dhb r log)"

definition pre_click :: "descriptor \<Rightarrow> driver \<Rightarrow> result \<Rightarrow> pre_click_outcome" where
  "pre_click element_info' d r0 =
     (case current_url_before d of
        Inl e \<Rightarrow> Raised e r0 []
      | Inr initial_url \<Rightarrow>
          (case title_before d of
             Inl e \<Rightarrow> Raised e r0 []
           | Inr initial_title \<Rightarrow>
               (case body_hash_before d of
                  Inl e \<Rightarrow> Raised e (r0\<lparr>url_before := initial_url\<rparr>) []
                | Inr dhb \<Rightarrow>
                    locate_step element_info' d initial_url initial_title dhb
                      (r0\<lparr>url_before := initial_url\<rparr>))))"

text \<open>
  Lines 198-248: the wait, the second reading of URL, title and digest, and the classification.
\<close>

definition observe :: "descriptor \<Rightarrow> driver \<Rightarrow> string \<Rightarrow> string \<Rightarrow> string \<Rightarrow> result
    \<Rightarrow> (exn \<times> result) + result" where
  "observe element_info' d initial_url initial_title dhb r =
     (let dom_changed = wait_until_changed dhb (polled_hashes d)
      in case current_url_after d of
        Inl e \<Rightarrow> Inl (e, r)
      | Inr current_url \<Rightarrow>
     (case title_after d of
        Inl e \<Rightarrow> Inl (e, r)
      | Inr current_title \<Rightarrow>
     (let r1 = r\<lparr>url_after := current_url\<rparr>
      in case body_hash_after d of
        Inl e \<Rightarrow> Inl (e, r1)
      | Inr dha \<Rightarrow>
     (case probe_ui d of (modals, dropdowns) \<Rightarrow>
        (let r2 = classify element_info' initial_url initial_title current_url current_title
                    dom_changed modals dropdowns r1
         in Inr (r2\<lparr>dom_hash_before := Some dhb, dom_hash_after := Some dha\<rparr>))))))"

text \<open>
  Lines 249-252, the outer handler; lines 142-151, the initial dict; \<open>click_body\<close> is the body
  of the outer \<^verbatim>\<open>try\<close>, and \<open>test_element_click_with_driver\<close> returns the result together
  with the commands sent.
\<close>

definition error_result :: "result \<Rightarrow> exn \<Rightarrow> result" where
  "error_result r e = r\<lparr>click_status := ''error'', error_message := str_exn e\<rparr>"

definition initial_result :: "descriptor \<Rightarrow> driver \<Rightarrow> result" where
  "initial_result element_info' d =
     \<lparr>element_info = element_info', click_status = ''unknown'', error_message = [],
      page_changed = False, url_before = [], url_after = [],
      new_elements_appeared = False, timestamp = now d,
      dom_hash_before = None, dom_hash_after = None\<rparr>"

definition click_body :: "descriptor \<Rightarrow> driver \<Rightarrow> (exn \<times> result \<times> action list) + (result \<times> action list)" where
  "click_body element_info' d =
     (case pre_click element_info' d (initial_result element_info' d) of
        Raised e r log \<Rightarrow> Inl (e, r, log)
      | Returned r log \<Rightarrow> Inr (r, log)
      | Ready initial_url initial_title dhb r log \<Rightarrow>
          (case observe element_info' d initial_url initial_title dhb r of
             Inl (e, r') \<Rightarrow> Inl (e, r', log)
           | Inr r' \<Rightarrow> Inr (r', log)))"

definition test_element_click_with_driver :: "descriptor \<Rightarrow> driver \<Rightarrow> result \<times> action list" where
  "test_element_click_with_driver element_info' d =
     (case click_body element_info' d of
        Inl (e, r, log) \<Rightarrow> (error_result r e, log)
      | Inr (r, log) \<Rightarrow> (r, log))"

subsection \<open>The batch loop and the aggregation\<close>





text \<open>
  The aggregation of \<^verbatim>\<open>run_comprehensive_test_concurrent\<close> (lines 1087-1104). The futures
  arrive in completion order; one that raised is skipped. Counters are natural numbers: they
  start at 0 and only grow.
\<close>

record test_results =
  elements_tested :: nat
  active_clicks :: nat
  dead_clicks :: nat
  errors :: nat
  results :: "result list"

definition collect :: "(exn + result list) \<Rightarrow> test_results \<Rightarrow> test_results" where
  "collect future t =
     (case future of
        Inl e \<Rightarrow> t
      | Inr batch_results \<Rightarrow>
          t\<lparr>results := results t @ batch_results,
            elements_tested := elements_tested t + length batch_results\<rparr>)"

definition tally :: "result \<Rightarrow> test_results \<Rightarrow> test_results" where
  "tally r t =
     (if prefix ''active'' (click_status r) then t\<lparr>active_clicks := active_clicks t + 1\<rparr>
      else if click_status r = ''dead_click'' then t\<lparr>dead_clicks := dead_clicks t + 1\<rparr>
      else t\<lparr>errors := errors t + 1\<rparr>)"

definition aggregate :: "(exn + result list) list \<Rightarrow> test_results" where
  "aggregate completed =
     (let t0 = \<lparr>elements_tested = 0, active_clicks = 0, dead_clicks = 0, errors = 0, results = []\<rparr>;
          t1 = fold collect completed t0
      in fold tally (results t1) t1)"

subsection \<open>Auxiliary definitions for the proofs\<close>

text \<open>
  The test of one pair in the words of the specification, with the two conditions the code
  adds: both paths are non-empty, and a text or class string counts only when it is non-empty.
  \<open>dedup_scan\<close> and \<open>collapse_fn\<close> are the two loops as structural recursions.
\<close>

definition nested_duplicate :: "descriptor \<Rightarrow> descriptor \<Rightarrow> bool" where
  "nested_duplicate A B =
     (let pa = get_str (xpath A); pb = get_str (xpath B)
      in pa \<noteq> [] \<and> pb \<noteq> [] \<and> prefix pa pb \<and>
         ((is_special_container A \<and> pb \<noteq> pa) \<or>
          (count_list pb CHR ''/'' = count_list pa CHR ''/'' + 1 \<and>
           ((truthy_str (text_attr A) \<and> text_attr A = text_attr B) \<or>
            (truthy_str (class_names A) \<and> class_names A = class_names B)))))"

text \<open>
  The pairs of positions in the order the two loops visit them, and what the visit of one pair
  does to the discard set in the words of the specification: a pair is skipped when the
  fingerprint of either descriptor is already in the set, and otherwise the fingerprint of the
  second is added exactly when the pair passes the test.
\<close>

definition pairs_in_order :: "nat \<Rightarrow> (nat \<times> nat) list" where
  "pairs_in_order n = concat (map (\<lambda>i. map (\<lambda>j. (i, j)) [i + 1..<n]) [0..<n])"

definition rule_step :: "descriptor list \<Rightarrow> nat \<times> nat \<Rightarrow> int option set \<Rightarrow> int option set" where
  "rule_step s p D =
     (case p of (i, j) \<Rightarrow>
        if unique_id (s ! i) \<in> D \<or> unique_id (s ! j) \<in> D then D
        else if nested_duplicate (s ! i) (s ! j) then insert (unique_id (s ! j)) D
        else D)"


fun dedup_scan :: "descriptor list \<Rightarrow> int option set \<Rightarrow> int option set" where
  "dedup_scan [] D = D"
| "dedup_scan (p # rest) D = dedup_scan rest (fold (check_pair p) rest D)"


subsection \<open>Concrete inputs\<close>

text \<open>
  A wrapper, a block nested in it with the same class, and a link nested in that block with the
  same class again; a box and an icon in it, both without text.
\<close>

definition ex_wrapper :: descriptor where
  "ex_wrapper = mk ''div'' ''card'' ''Buy'' ''/html/body/div[1]'' 11"
definition ex_inner :: descriptor where
  "ex_inner = mk ''div'' ''card'' ''Buy now'' ''/html/body/div[1]/div[1]'' 12"
definition ex_link :: descriptor where
  "ex_link = mk ''a'' ''card'' ''Go'' ''/html/body/div[1]/div[1]/a[1]'' 13"
definition ex_box :: descriptor where
  "ex_box = mk ''div'' ''box'' [] ''/html/body/div[2]'' 21"
definition ex_icon :: descriptor where
  "ex_icon = mk ''span'' ''icon'' [] ''/html/body/div[2]/span[1]'' 22"

text \<open>
  A browser in which the click navigates and changes the page, and variations of it.
\<close>

definition ex_driver :: driver where
  "ex_driver =
     \<lparr>now = ''2024-01-01T00:00:00'',
      current_url_before = Inr ''http://site/'',
      title_before = Inr ''Home'',
      body_hash_before = Inr ''h0'',
      locate = (\<lambda>n. \<lparr>found = Some 7, found_displayed = Inr True, found_enabled = Inr True\<rparr>),
      scroll_into_view = Inr (),
      displayed_after_scroll = Inr True,
      enabled_after_scroll = Inr True,
      pointer_click = Inr (),
      js_click = Inr (),
      polled_hashes = [Inr ''h0'', Inr ''h1''],
      current_url_after = Inr ''http://site/about'',
      title_after = Inr ''Home'',
      body_hash_after = Inr ''h1'',
      find_modals = Inr [],
      find_dropdowns = Inr []\<rparr>"



definition ex_anchor :: descriptor where
  "ex_anchor = (mk ''a'' ''nav'' ''About'' ''/html/body/a[1]'' 5)\<lparr>href := Some ''JavaScript: Void(0)''\<rparr>"

definition ex_long_a :: descriptor where
  "ex_long_a = mk ''a'' ''teaser'' (replicate 50 (CHR ''x'') @ ''ABC'') ''/html/body/a[1]'' 0"
definition ex_long_b :: descriptor where
  "ex_long_b = mk ''a'' ''teaser'' (replicate 50 (CHR ''x'') @ ''XYZ!'') ''/html/body/p[3]/a[1]'' 0"

definition ex_driver_missing :: driver where
  "ex_driver_missing = ex_driver\<lparr>locate := (\<lambda>n. \<lparr>found = None, found_displayed = Inr True, found_enabled = Inr True\<rparr>)\<rparr>"
definition ex_driver_hidden :: driver where
  "ex_driver_hidden = ex_driver\<lparr>displayed_after_scroll := Inr False\<rparr>"
definition ex_result :: "string \<Rightarrow> result" where
  "ex_result status = (initial_result ex_anchor ex_driver)\<lparr>click_status := status\<rparr>"

section \<open>Properties\<close>

subsection \<open>Batch partition\<close>

lemma off_Suc: "off q r (Suc k) = off q r k + (q + (if k < r then 1 else 0))"
  by (simp add: off_def)

lemma off_total: "0 < W \<Longrightarrow> off (N div W) (N mod W) W = N"
  unfolding off_def by (simp add: min_absorb2)

lemma off_mono: "k \<le> l \<Longrightarrow> off q r k \<le> off q r l"
  unfolding off_def by (simp add: add_mono min.mono)

lemma fold_batch_step:
  assumes le: "off q r k \<le> length xs"
  shows "fold (batch_step xs q r) [0..<k] (0, []) =
     (off q r k, map (\<lambda>i. slice xs (off q r i) (off q r (Suc i))) [0..<(if q = 0 then min k r else k)])"
  using le
proof (induction k)
  case 0
  then show ?case by (simp add: off_def)
next
  case (Suc k)
  have "off q r k \<le> off q r (Suc k)" by (rule off_mono) simp
  with Suc.prems have le': "off q r k \<le> length xs" by simp
  have len: "length (slice xs (off q r k) (off q r (Suc k))) = q + (if k < r then 1 else 0)"
    using Suc.prems unfolding slice_def by (simp add: off_Suc)
  have ne: "slice xs (off q r k) (off q r (Suc k)) \<noteq> [] \<longleftrightarrow> (0 < q \<or> k < r)"
  proof -
    have "slice xs (off q r k) (off q r (Suc k)) \<noteq> [] \<longleftrightarrow> length (slice xs (off q r k) (off q r (Suc k))) \<noteq> 0"
      by simp
    then show ?thesis unfolding len by auto
  qed
  show ?case
    using Suc.IH[OF le'] ne
    by (auto simp: batch_step_def Let_def off_Suc min_def)
qed

lemma concat_slices:
  "concat (map (\<lambda>i. slice xs (off q r i) (off q r (Suc i))) [0..<m]) = take (off q r m) xs"
proof (induction m)
  case 0
  then show ?case by (simp add: off_def)
next
  case (Suc m)
  have le: "off q r m \<le> off q r (Suc m)" by (rule off_mono) simp
  have "take (off q r m) xs @ slice xs (off q r m) (off q r (Suc m)) = take (off q r (Suc m)) xs"
    using le unfolding slice_def
    by (metis add_diff_cancel_left' le_Suc_ex take_add)
  with Suc show ?case by simp
qed

lemma divide_explicit:
  assumes "0 < W"
  shows "divide_elements_into_batches xs W =
     Inr (map (\<lambda>i. slice xs (off (length xs div W) (length xs mod W) i) (off (length xs div W) (length xs mod W) (Suc i)))
            [0..<(if length xs div W = 0 then length xs mod W else W)])"
proof -
  have "off (length xs div W) (length xs mod W) W \<le> length xs"
    using off_total[OF assms, of "length xs"] by simp
  from fold_batch_step[OF this] assms show ?thesis
    by (simp add: divide_elements_into_batches_def Let_def min_absorb2 less_imp_le)
qed

lemma length_slice_off:
  assumes "0 < W" "i < W"
  shows "length (slice xs (off (length xs div W) (length xs mod W) i) (off (length xs div W) (length xs mod W) (Suc i)))
     = length xs div W + (if i < length xs mod W then 1 else 0)"
proof -
  have "off (length xs div W) (length xs mod W) (Suc i) \<le> off (length xs div W) (length xs mod W) W"
    using assms by (intro off_mono) simp
  then have "off (length xs div W) (length xs mod W) (Suc i) \<le> length xs"
    using off_total[OF assms(1), of "length xs"] by simp
  then show ?thesis unfolding slice_def by (simp add: off_Suc)
qed

text \<open>
  Claim C3. For a worker count \<open>W \<ge> 1\<close> the call returns normally, the batches
  concatenated in order are the input list (a partition that keeps the order, no element
  lost or repeated), no batch is empty or longer than \<open>ceil(N/W)\<close>, the \<open>i\<close>-th batch has
  \<open>N div W + 1\<close> elements when \<open>i < N mod W\<close> and \<open>N div W\<close> otherwise, and there are
  \<open>min N W\<close> batches.
\<close>

theorem divide_batches_partition:
  assumes "1 \<le> W"
  shows "\<exists>bs. divide_elements_into_batches xs W = Inr bs
          \<and> concat bs = xs
          \<and> (\<forall>b \<in> set bs. b \<noteq> [] \<and> length b \<le> (length xs + W - 1) div W)
          \<and> (\<forall>i < length bs. length (bs ! i) = length xs div W + (if i < length xs mod W then 1 else 0))
          \<and> length bs = (if length xs < W then length xs else W)"
proof -
  define q where "q = length xs div W"
  define r where "r = length xs mod W"
  define m where "m = (if q = 0 then r else W)"
  define bs where "bs = map (\<lambda>i. slice xs (off q r i) (off q r (Suc i))) [0..<m]"
  from assms have W: "0 < W" by simp
  have small: "q = 0 \<longleftrightarrow> length xs < W"
    using W unfolding q_def by (simp add: div_eq_0_iff)
  have r_small: "q = 0 \<Longrightarrow> r = length xs"
    using small unfolding r_def by simp
  have m_le: "m \<le> W"
    using W unfolding m_def r_def by (simp add: less_imp_le)
  have m_eq: "m = (if length xs < W then length xs else W)"
    using small r_small unfolding m_def by auto
  have eq: "divide_elements_into_batches xs W = Inr bs"
    using divide_explicit[OF W, of xs] unfolding bs_def m_def q_def r_def by simp
  have len: "length (bs ! i) = q + (if i < r then 1 else 0)" if "i < m" for i
    using length_slice_off[OF W, of i xs] that m_le unfolding bs_def q_def r_def by simp
  have off_m: "off q r m = length xs"
  proof (cases "q = 0")
    case True
    then show ?thesis using r_small unfolding m_def off_def by simp
  next
    case False
    then show ?thesis using off_total[OF W, of "length xs"] unfolding m_def q_def r_def by simp
  qed
  have cc: "concat bs = xs"
    unfolding bs_def concat_slices off_m by simp
  have lbs: "length bs = m" unfolding bs_def by simp
  have ceil: "q + (if i < r then 1 else 0) \<le> (length xs + W - 1) div W" for i
  proof (cases "r = 0")
    case True
    have "length xs div W \<le> (length xs + W - 1) div W"
      using W by (intro div_le_mono) simp
    with True show ?thesis unfolding q_def by simp
  next
    case False
    have "length xs = q * W + r" unfolding q_def r_def by simp
    moreover from False have "1 \<le> r" by simp
    ultimately have "(q + 1) * W \<le> length xs + W - 1" by (simp add: algebra_simps)
    then have "q + 1 \<le> (length xs + W - 1) div W"
      using W by (simp add: less_eq_div_iff_mult_less_eq)
    then show ?thesis by simp
  qed
  have nonempty: "q + (if i < r then 1 else 0) > 0" if "i < m" for i
    using that unfolding m_def by (cases "q = 0") auto
  have all: "\<forall>b \<in> set bs. b \<noteq> [] \<and> length b \<le> (length xs + W - 1) div W"
  proof
    fix b assume "b \<in> set bs"
    then obtain i where i: "i < m" "b = bs ! i"
      using lbs by (metis in_set_conv_nth)
    from len[OF i(1)] nonempty[OF i(1)] ceil[of i] i(2)
    show "b \<noteq> [] \<and> length b \<le> (length xs + W - 1) div W" by auto
  qed
  show ?thesis
    using eq cc all len lbs m_eq unfolding q_def r_def by auto
qed

theorem divide_batches_partition_witness:
  "(1::nat) \<le> 3
   \<and> divide_elements_into_batches [10, 20, 30, 40, 50, 60, 70 :: nat] 3 = Inr [[10, 20, 30], [40, 50], [60, 70]]
   \<and> concat [[10, 20, 30], [40, 50], [60, 70 :: nat]] = [10, 20, 30, 40, 50, 60, 70]
   \<and> (length [10, 20, 30, 40, 50, 60, 70 :: nat] + 3 - 1) div 3 = 3
   \<and> divide_elements_into_batches [10, 20 :: nat] 3 = Inr [[10], [20]]"
proof -
  have h: "(1::nat) \<le> 3" by simp
  have a: "divide_elements_into_batches [10, 20, 30, 40, 50, 60, 70 :: nat] 3 = Inr [[10, 20, 30], [40, 50], [60, 70]]"
    by (simp add: divide_elements_into_batches_def batch_step_def slice_def Let_def upt_rec)
  have b: "divide_elements_into_batches [10, 20 :: nat] 3 = Inr [[10], [20]]"
    by (simp add: divide_elements_into_batches_def batch_step_def slice_def Let_def upt_rec)
  from divide_batches_partition[OF h, of "[10, 20, 30, 40, 50, 60, 70 :: nat]"] a b show ?thesis
    by simp
qed

subsection \<open>Fingerprints\<close>

text \<open>
  Claim C9. Two descriptors with the same tag name, id and class-name string whose texts agree
  on their first 50 characters get the same fingerprint from \<^verbatim>\<open>create_unique_id\<close>, whatever
  the texts are beyond the 50th character and whatever the other keys hold. The hash is any
  function of the joined string: the statement holds for every \<open>py_hash\<close>.
\<close>

theorem create_unique_id_deterministic:
  assumes "get_str (tag_name d1) = get_str (tag_name d2)"
      and "get_str (id_attr d1) = get_str (id_attr d2)"
      and "get_str (class_names d1) = get_str (class_names d2)"
      and "take 50 (get_str (text_attr d1)) = take 50 (get_str (text_attr d2))"
  shows "create_unique_id py_hash d1 = create_unique_id py_hash d2"
  using assms by (simp add: create_unique_id_def)

theorem create_unique_id_deterministic_witness:
  "get_str (text_attr ex_long_a) \<noteq> get_str (text_attr ex_long_b)
   \<and> xpath ex_long_a \<noteq> xpath ex_long_b
   \<and> take 50 (get_str (text_attr ex_long_a)) = take 50 (get_str (text_attr ex_long_b))
   \<and> (\<forall>py_hash. create_unique_id py_hash ex_long_a = create_unique_id py_hash ex_long_b)"
proof -
  have a: "get_str (tag_name ex_long_a) = get_str (tag_name ex_long_b)"
    and b: "get_str (id_attr ex_long_a) = get_str (id_attr ex_long_b)"
    and c: "get_str (class_names ex_long_a) = get_str (class_names ex_long_b)"
    and d: "take 50 (get_str (text_attr ex_long_a)) = take 50 (get_str (text_attr ex_long_b))"
    and e: "get_str (text_attr ex_long_a) \<noteq> get_str (text_attr ex_long_b)"
    and f: "xpath ex_long_a \<noteq> xpath ex_long_b"
    by (simp_all add: ex_long_a_def ex_long_b_def mk_def get_str_def)
  from create_unique_id_deterministic[OF a b c d] d e f show ?thesis by simp
qed

subsection \<open>Nested duplicates\<close>

lemma check_pair_eq:
  "check_pair p c D =
     (if unique_id p \<in> D \<or> unique_id c \<in> D then D
      else if nested_duplicate p c then insert (unique_id c) D else D)"
  by (auto simp: check_pair_def nested_duplicate_def Let_def)

lemma check_pair_mono: "D \<subseteq> check_pair p c D"
  by (auto simp: check_pair_eq)

lemma fold_check_pair_mono: "D \<subseteq> fold (check_pair p) cs D"
proof (induction cs arbitrary: D)
  case Nil
  then show ?case by simp
next
  case (Cons c cs)
  have "D \<subseteq> check_pair p c D" by (rule check_pair_mono)
  also have "\<dots> \<subseteq> fold (check_pair p) cs (check_pair p c D)" by (rule Cons.IH)
  finally show ?case by simp
qed

lemma dedup_scan_mono: "D \<subseteq> dedup_scan s D"
proof (induction s arbitrary: D)
  case Nil
  then show ?case by simp
next
  case (Cons p rest)
  have "D \<subseteq> fold (check_pair p) rest D" by (rule fold_check_pair_mono)
  also have "\<dots> \<subseteq> dedup_scan rest (fold (check_pair p) rest D)" by (rule Cons.IH)
  finally show ?case by simp
qed

lemma fold_check_pair_sound:
  "u \<in> fold (check_pair p) cs D \<Longrightarrow>
     u \<in> D \<or> (\<exists>j < length cs. unique_id (cs ! j) = u \<and> nested_duplicate p (cs ! j))"
proof (induction cs arbitrary: D)
  case Nil
  then show ?case by simp
next
  case (Cons c cs)
  from Cons.prems have "u \<in> fold (check_pair p) cs (check_pair p c D)" by simp
  from Cons.IH[OF this] show ?case
  proof
    assume "u \<in> check_pair p c D"
    then have "u \<in> D \<or> (unique_id c = u \<and> nested_duplicate p c)"
      by (auto simp: check_pair_eq split: if_splits)
    then show ?thesis by auto
  next
    assume "\<exists>j < length cs. unique_id (cs ! j) = u \<and> nested_duplicate p (cs ! j)"
    then obtain j where "j < length cs" "unique_id (cs ! j) = u" "nested_duplicate p (cs ! j)" by blast
    then have "Suc j < length (c # cs) \<and> unique_id ((c # cs) ! Suc j) = u \<and> nested_duplicate p ((c # cs) ! Suc j)"
      by simp
    then show ?thesis by blast
  qed
qed

lemma dedup_scan_sound:
  "u \<in> dedup_scan s D \<Longrightarrow>
     u \<in> D \<or> (\<exists>i j. i < j \<and> j < length s \<and> unique_id (s ! j) = u \<and> nested_duplicate (s ! i) (s ! j))"
proof (induction s arbitrary: D)
  case Nil
  then show ?case by simp
next
  case (Cons p rest)
  from Cons.prems have "u \<in> dedup_scan rest (fold (check_pair p) rest D)" by simp
  from Cons.IH[OF this] show ?case
  proof
    assume "u \<in> fold (check_pair p) rest D"
    from fold_check_pair_sound[OF this] show ?thesis
    proof
      assume "u \<in> D" then show ?thesis by simp
    next
      assume "\<exists>j < length rest. unique_id (rest ! j) = u \<and> nested_duplicate p (rest ! j)"
      then obtain j where j: "j < length rest" "unique_id (rest ! j) = u" "nested_duplicate p (rest ! j)" by blast
      then have "0 < Suc j \<and> Suc j < length (p # rest) \<and> unique_id ((p # rest) ! Suc j) = u
          \<and> nested_duplicate ((p # rest) ! 0) ((p # rest) ! Suc j)" by simp
      then show ?thesis by blast
    qed
  next
    assume "\<exists>i j. i < j \<and> j < length rest \<and> unique_id (rest ! j) = u \<and> nested_duplicate (rest ! i) (rest ! j)"
    then obtain i j where ij: "i < j" "j < length rest" "unique_id (rest ! j) = u"
        "nested_duplicate (rest ! i) (rest ! j)" by blast
    then have "Suc i < Suc j \<and> Suc j < length (p # rest) \<and> unique_id ((p # rest) ! Suc j) = u
        \<and> nested_duplicate ((p # rest) ! Suc i) ((p # rest) ! Suc j)" by simp
    then show ?thesis by blast
  qed
qed

lemma fold_check_pair_complete:
  "j < length cs \<Longrightarrow> nested_duplicate p (cs ! j) \<Longrightarrow>
     unique_id p \<in> fold (check_pair p) cs D \<or> unique_id (cs ! j) \<in> fold (check_pair p) cs D"
proof (induction cs arbitrary: D j)
  case Nil
  then show ?case by simp
next
  case (Cons c cs)
  show ?case
  proof (cases j)
    case 0
    with Cons.prems have "unique_id p \<in> check_pair p c D \<or> unique_id c \<in> check_pair p c D"
      by (auto simp: check_pair_eq)
    moreover have "check_pair p c D \<subseteq> fold (check_pair p) (c # cs) D"
      using fold_check_pair_mono[of "check_pair p c D" p cs] by simp
    ultimately show ?thesis using 0 by auto
  next
    case (Suc k)
    with Cons.prems have "k < length cs" "nested_duplicate p (cs ! k)" by simp_all
    from Cons.IH[OF this, of "check_pair p c D"] Suc show ?thesis by simp
  qed
qed

lemma dedup_scan_complete:
  "i < j \<Longrightarrow> j < length s \<Longrightarrow> nested_duplicate (s ! i) (s ! j) \<Longrightarrow>
     unique_id (s ! i) \<in> dedup_scan s D \<or> unique_id (s ! j) \<in> dedup_scan s D"
proof (induction s arbitrary: D i j)
  case Nil
  then show ?case by simp
next
  case (Cons p rest)
  show ?case
  proof (cases i)
    case 0
    with Cons.prems obtain k where k: "j = Suc k" by (cases j) auto
    with Cons.prems 0 have "k < length rest" "nested_duplicate p (rest ! k)" by simp_all
    from fold_check_pair_complete[OF this, of D]
    have "unique_id p \<in> fold (check_pair p) rest D \<or> unique_id (rest ! k) \<in> fold (check_pair p) rest D" .
    moreover have "fold (check_pair p) rest D \<subseteq> dedup_scan (p # rest) D"
      using dedup_scan_mono[of "fold (check_pair p) rest D" rest] by simp
    ultimately show ?thesis using 0 k by auto
  next
    case (Suc i')
    with Cons.prems obtain k where k: "j = Suc k" by (cases j) auto
    with Cons.prems Suc have "i' < k" "k < length rest" "nested_duplicate (rest ! i') (rest ! k)" by simp_all
    from Cons.IH[OF this, of "fold (check_pair p) rest D"] Suc k show ?thesis by simp
  qed
qed

lemma map_nth_upt_drop: "map ((!) s) [a..<length s] = drop a s"
  by (simp add: list_eq_iff_nth_eq)

lemma inner_loop_drop: "inner_loop s i D = fold (check_pair (s ! i)) (drop (Suc i) s) D"
proof -
  have "fold (\<lambda>j. check_pair (s ! i) (s ! j)) [Suc i..<length s] D
      = fold (check_pair (s ! i)) (map ((!) s) [Suc i..<length s]) D"
    by (simp add: fold_map comp_def)
  then show ?thesis by (simp add: inner_loop_def map_nth_upt_drop)
qed

lemma outer_loop_drop: "fold (inner_loop s) [k..<length s] D = dedup_scan (drop k s) D"
proof (induction "length s - k" arbitrary: k D)
  case 0
  then show ?case by simp
next
  case (Suc n)
  then have k: "k < length s" by simp
  from Suc have n: "n = length s - Suc k" by simp
  have "fold (inner_loop s) [k..<length s] D = fold (inner_loop s) [Suc k..<length s] (inner_loop s k D)"
    using k by (simp add: upt_conv_Cons)
  also have "\<dots> = dedup_scan (drop (Suc k) s) (inner_loop s k D)"
    by (rule Suc.hyps(1)[OF n])
  also have "\<dots> = dedup_scan (s ! k # drop (Suc k) s) D"
    by (simp add: inner_loop_drop)
  also have "s ! k # drop (Suc k) s = drop k s"
    using k by (rule Cons_nth_drop_Suc)
  finally show ?case .
qed

lemma discard_set_scan: "discard_set s = dedup_scan s {}"
  using outer_loop_drop[of s 0 "{}"] by (simp add: discard_set_def)

lemma inner_loop_rule:
  "inner_loop s i D = fold (rule_step s) (map (\<lambda>j. (i, j)) [i + 1..<length s]) D"
proof -
  have "(\<lambda>j. check_pair (s ! i) (s ! j)) = rule_step s \<circ> (\<lambda>j. (i, j))"
    by (simp add: fun_eq_iff rule_step_def check_pair_eq)
  then show ?thesis by (simp add: inner_loop_def fold_map)
qed

lemma fold_concat_lists: "fold f (concat xss) = fold (fold f) xss"
  by (induction xss) simp_all

lemma discard_set_rule: "discard_set s = fold (rule_step s) (pairs_in_order (length s)) {}"
proof -
  have "inner_loop s = fold (rule_step s) \<circ> (\<lambda>i. map (\<lambda>j. (i, j)) [i + 1..<length s])"
    by (simp add: fun_eq_iff inner_loop_rule)
  then show ?thesis
    by (simp add: discard_set_def pairs_in_order_def fold_concat_lists fold_map)
qed

lemma fold_check_pair_exact:
  "unique_id p \<notin> unique_id ` set cs \<Longrightarrow>
     fold (check_pair p) cs D =
       (if unique_id p \<in> D then D
        else D \<union> {u. \<exists>c \<in> set cs. unique_id c = u \<and> nested_duplicate p c})"
proof (induction cs arbitrary: D)
  case Nil
  then show ?case by simp
next
  case (Cons c cs)
  from Cons.prems have ne: "unique_id c \<noteq> unique_id p" and rest: "unique_id p \<notin> unique_id ` set cs"
    by auto
  show ?case
  proof (cases "unique_id p \<in> D")
    case True
    then have "check_pair p c D = D" by (simp add: check_pair_eq)
    with True Cons.IH[OF rest, of D] show ?thesis by simp
  next
    case False
    have notin: "unique_id p \<notin> check_pair p c D"
      using False ne by (auto simp: check_pair_eq)
    have step: "check_pair p c D \<union> {u. \<exists>c' \<in> set cs. unique_id c' = u \<and> nested_duplicate p c'}
        = D \<union> {u. \<exists>c' \<in> set (c # cs). unique_id c' = u \<and> nested_duplicate p c'}"
      using False by (auto simp: check_pair_eq)
    from Cons.IH[OF rest, of "check_pair p c D"] notin step False show ?thesis by simp
  qed
qed

lemma dedup_scan_exact:
  "distinct (map unique_id s) \<Longrightarrow>
     u \<in> dedup_scan s D0 \<longleftrightarrow>
       u \<in> D0 \<or> (\<exists>i j. i < j \<and> j < length s \<and> unique_id (s ! j) = u
                    \<and> unique_id (s ! i) \<notin> dedup_scan s D0 \<and> nested_duplicate (s ! i) (s ! j))"
proof (induction s arbitrary: D0 u)
  case Nil
  then show ?case by simp
next
  case (Cons p rest)
  define F where "F = fold (check_pair p) rest D0"
  define R where "R = dedup_scan rest F"
  define S where "S = {u. \<exists>c \<in> set rest. unique_id c = u \<and> nested_duplicate p c}"
  from Cons.prems have pn: "unique_id p \<notin> unique_id ` set rest" and dr: "distinct (map unique_id rest)"
    by auto
  have R_eq: "dedup_scan (p # rest) D0 = R" unfolding R_def F_def by simp
  have F_eq: "F = (if unique_id p \<in> D0 then D0 else D0 \<union> S)"
    unfolding F_def S_def by (rule fold_check_pair_exact[OF pn])
  have D0F: "D0 \<subseteq> F" unfolding F_def by (rule fold_check_pair_mono)
  have FR: "F \<subseteq> R" unfolding R_def by (rule dedup_scan_mono)
  have IH: "v \<in> R \<longleftrightarrow> v \<in> F \<or> (\<exists>i j. i < j \<and> j < length rest \<and> unique_id (rest ! j) = v
                    \<and> unique_id (rest ! i) \<notin> R \<and> nested_duplicate (rest ! i) (rest ! j))" for v
    unfolding R_def by (rule Cons.IH[OF dr])
  have pS: "unique_id p \<notin> S"
  proof
    assume "unique_id p \<in> S"
    then obtain c where "c \<in> set rest" "unique_id c = unique_id p" unfolding S_def by blast
    then have "unique_id p \<in> unique_id ` set rest" by (metis imageI)
    with pn show False by simp
  qed
  have pR: "unique_id p \<in> R \<longleftrightarrow> unique_id p \<in> D0"
  proof
    assume "unique_id p \<in> R"
    with IH[of "unique_id p"] have "unique_id p \<in> F
        \<or> (\<exists>j < length rest. unique_id (rest ! j) = unique_id p)" by blast
    moreover have "\<not> (\<exists>j < length rest. unique_id (rest ! j) = unique_id p)"
      using pn by (metis imageI nth_mem)
    ultimately have "unique_id p \<in> F" by blast
    with F_eq pS show "unique_id p \<in> D0" by (auto split: if_splits)
  next
    assume "unique_id p \<in> D0"
    with D0F FR show "unique_id p \<in> R" by blast
  qed
  have "u \<in> R \<longleftrightarrow> u \<in> D0 \<or> (\<exists>i j. i < j \<and> j < length (p # rest) \<and> unique_id ((p # rest) ! j) = u
                    \<and> unique_id ((p # rest) ! i) \<notin> R \<and> nested_duplicate ((p # rest) ! i) ((p # rest) ! j))"
    (is "?L \<longleftrightarrow> ?A \<or> ?B")
  proof
    assume ?L
    with IH[of u] consider (f) "u \<in> F"
      | (r) i j where "i < j" "j < length rest" "unique_id (rest ! j) = u"
          "unique_id (rest ! i) \<notin> R" "nested_duplicate (rest ! i) (rest ! j)"
      by blast
    then show "?A \<or> ?B"
    proof cases
      case f
      show ?thesis
      proof (cases "u \<in> D0")
        case True
        then show ?thesis by simp
      next
        case False
        with f F_eq have pD: "unique_id p \<notin> D0" and "u \<in> S" by (auto split: if_splits)
        then obtain c where "c \<in> set rest" "unique_id c = u" "nested_duplicate p c"
          unfolding S_def by blast
        then obtain k where k: "k < length rest" "rest ! k = c" by (metis in_set_conv_nth)
        have "0 < Suc k \<and> Suc k < length (p # rest) \<and> unique_id ((p # rest) ! Suc k) = u
            \<and> unique_id ((p # rest) ! 0) \<notin> R \<and> nested_duplicate ((p # rest) ! 0) ((p # rest) ! Suc k)"
          using k \<open>unique_id c = u\<close> \<open>nested_duplicate p c\<close> pD pR by simp
        then have ?B by blast
        then show ?thesis by simp
      qed
    next
      case r
      then have "Suc i < Suc j \<and> Suc j < length (p # rest) \<and> unique_id ((p # rest) ! Suc j) = u
          \<and> unique_id ((p # rest) ! Suc i) \<notin> R
          \<and> nested_duplicate ((p # rest) ! Suc i) ((p # rest) ! Suc j)" by simp
      then have ?B by blast
      then show ?thesis by simp
    qed
  next
    assume "?A \<or> ?B"
    then show ?L
    proof
      assume ?A
      with D0F FR show ?L by blast
    next
      assume ?B
      then obtain i j where ij: "i < j" "j < length (p # rest)" "unique_id ((p # rest) ! j) = u"
          "unique_id ((p # rest) ! i) \<notin> R" "nested_duplicate ((p # rest) ! i) ((p # rest) ! j)"
        by blast
      from ij(1) obtain k where k: "j = Suc k" by (cases j) auto
      show ?L
      proof (cases i)
        case 0
        with ij k have kk: "k < length rest" "unique_id (rest ! k) = u" "unique_id p \<notin> R"
            "nested_duplicate p (rest ! k)" by simp_all
        from kk(3) pR have "unique_id p \<notin> D0" by simp
        with F_eq have "F = D0 \<union> S" by simp
        moreover have "u \<in> S"
        proof -
          have "rest ! k \<in> set rest" using kk(1) by simp
          with kk(2,4) show ?thesis unfolding S_def by blast
        qed
        ultimately have "u \<in> F" by simp
        with FR show ?thesis by (rule_tac subsetD)
      next
        case (Suc i')
        with ij k have "i' < k \<and> k < length rest \<and> unique_id (rest ! k) = u
            \<and> unique_id (rest ! i') \<notin> R \<and> nested_duplicate (rest ! i') (rest ! k)" by simp
        then have "\<exists>i j. i < j \<and> j < length rest \<and> unique_id (rest ! j) = u
            \<and> unique_id (rest ! i) \<notin> R \<and> nested_duplicate (rest ! i) (rest ! j)" by blast
        then have "u \<in> F \<or> (\<exists>i j. i < j \<and> j < length rest \<and> unique_id (rest ! j) = u
            \<and> unique_id (rest ! i) \<notin> R \<and> nested_duplicate (rest ! i) (rest ! j))" by (rule disjI2)
        then show ?thesis by (rule IH[THEN iffD2])
      qed
    qed
  qed
  then show ?case unfolding R_eq .
qed

lemma discard_set_distinct:
  assumes "distinct (map unique_id s)" and "j < length s"
  shows "unique_id (s ! j) \<in> discard_set s \<longleftrightarrow>
     (\<exists>i < j. unique_id (s ! i) \<notin> discard_set s \<and> nested_duplicate (s ! i) (s ! j))"
proof -
  have inj: "k = j" if "k < length s" "unique_id (s ! k) = unique_id (s ! j)" for k
  proof -
    from nth_eq_iff_index_eq[OF assms(1), of k j] that assms(2) show ?thesis by simp
  qed
  have "unique_id (s ! j) \<in> discard_set s \<longleftrightarrow>
      (\<exists>i k. i < k \<and> k < length s \<and> unique_id (s ! k) = unique_id (s ! j)
             \<and> unique_id (s ! i) \<notin> discard_set s \<and> nested_duplicate (s ! i) (s ! k))"
    using dedup_scan_exact[OF assms(1), of "unique_id (s ! j)" "{}"] by (simp add: discard_set_scan)
  also have "\<dots> \<longleftrightarrow> (\<exists>i < j. unique_id (s ! i) \<notin> discard_set s \<and> nested_duplicate (s ! i) (s ! j))"
    using inj assms(2) by blast
  finally show ?thesis .
qed

text \<open>
  Claim C2, as the code has it. The descriptors are sorted by the length of their path, stably.
  The discard set is what the visits of the pairs (A, B), A before B, leave behind when they
  are made in loop order: a visit changes nothing when the fingerprint of A or of B is already
  in the set, and otherwise adds the fingerprint of B exactly when the pair passes the test
  \<open>nested_duplicate\<close>. With \<open>D\<close> the final set: a pair that passes the test has the
  fingerprint of B in \<open>D\<close> unless the fingerprint of A is; every fingerprint in \<open>D\<close> is that
  of the second descriptor of such a pair; when no two descriptors share a fingerprint, B is
  discarded exactly when some A before it passes the test with B and is itself kept; and the
  result is the input without the descriptors whose fingerprint is in \<open>D\<close>.
\<close>

theorem advanced_deduplication_rule:
  "sorted (map (\<lambda>x. length (get_str (xpath x))) (sorted_elements elements))
   \<and> mset (sorted_elements elements) = mset elements
   \<and> (\<forall>k. filter (\<lambda>x. length (get_str (xpath x)) = k) (sorted_elements elements)
          = filter (\<lambda>x. length (get_str (xpath x)) = k) elements)
   \<and> discard_set (sorted_elements elements)
        = fold (rule_step (sorted_elements elements)) (pairs_in_order (length elements)) {}
   \<and> (\<forall>i j. i < j \<and> j < length elements
          \<and> nested_duplicate (sorted_elements elements ! i) (sorted_elements elements ! j)
          \<and> unique_id (sorted_elements elements ! i) \<notin> discard_set (sorted_elements elements)
        \<longrightarrow> unique_id (sorted_elements elements ! j) \<in> discard_set (sorted_elements elements))
   \<and> (\<forall>u \<in> discard_set (sorted_elements elements). \<exists>i j. i < j \<and> j < length elements
          \<and> unique_id (sorted_elements elements ! j) = u
          \<and> nested_duplicate (sorted_elements elements ! i) (sorted_elements elements ! j))
   \<and> (distinct (map unique_id elements) \<longrightarrow>
        (\<forall>j < length elements.
           unique_id (sorted_elements elements ! j) \<in> discard_set (sorted_elements elements)
           \<longleftrightarrow> (\<exists>i < j. unique_id (sorted_elements elements ! i) \<notin> discard_set (sorted_elements elements)
                        \<and> nested_duplicate (sorted_elements elements ! i) (sorted_elements elements ! j))))
   \<and> advanced_deduplication elements
        = filter (\<lambda>e. unique_id e \<notin> discard_set (sorted_elements elements)) elements"
proof -
  define s where "s = sorted_elements elements"
  have len: "length s = length elements" unfolding s_def sorted_elements_def by simp
  have a: "sorted (map (\<lambda>x. length (get_str (xpath x))) s)"
    unfolding s_def sorted_elements_def by simp
  have b: "mset s = mset elements" unfolding s_def sorted_elements_def by simp
  have c: "filter (\<lambda>x. length (get_str (xpath x)) = k) s = filter (\<lambda>x. length (get_str (xpath x)) = k) elements" for k
    unfolding s_def sorted_elements_def by (rule sort_key_stable)
  have r: "discard_set s = fold (rule_step s) (pairs_in_order (length elements)) {}"
    using discard_set_rule[of s] len by simp
  have d: "unique_id (s ! j) \<in> discard_set s"
    if "i < j" "j < length elements" "nested_duplicate (s ! i) (s ! j)" "unique_id (s ! i) \<notin> discard_set s" for i j
    using dedup_scan_complete[of i j s "{}"] that len by (simp add: discard_set_scan)
  have e: "\<exists>i j. i < j \<and> j < length elements \<and> unique_id (s ! j) = u \<and> nested_duplicate (s ! i) (s ! j)"
    if "u \<in> discard_set s" for u
    using dedup_scan_sound[of u s "{}"] that len by (simp add: discard_set_scan)
  have g: "unique_id (s ! j) \<in> discard_set s
           \<longleftrightarrow> (\<exists>i < j. unique_id (s ! i) \<notin> discard_set s \<and> nested_duplicate (s ! i) (s ! j))"
    if dist: "distinct (map unique_id elements)" and j: "j < length elements" for j
  proof -
    have "mset (map unique_id s) = mset (map unique_id elements)" using b by simp
    then have "distinct (map unique_id s)" using dist by (metis mset_eq_imp_distinct_iff)
    then show ?thesis using j len by (intro discard_set_distinct) simp_all
  qed
  have f: "advanced_deduplication elements = filter (\<lambda>e. unique_id e \<notin> discard_set s) elements"
    by (simp add: advanced_deduplication_def s_def Let_def)
  have c': "\<forall>k. filter (\<lambda>x. length (get_str (xpath x)) = k) s
          = filter (\<lambda>x. length (get_str (xpath x)) = k) elements"
    using c by blast
  have d': "\<forall>i j. i < j \<and> j < length elements \<and> nested_duplicate (s ! i) (s ! j)
          \<and> unique_id (s ! i) \<notin> discard_set s \<longrightarrow> unique_id (s ! j) \<in> discard_set s"
    using d by blast
  have e': "\<forall>u \<in> discard_set s. \<exists>i j. i < j \<and> j < length elements
          \<and> unique_id (s ! j) = u \<and> nested_duplicate (s ! i) (s ! j)"
    using e by blast
  have g': "distinct (map unique_id elements) \<longrightarrow>
        (\<forall>j < length elements. unique_id (s ! j) \<in> discard_set s
           \<longleftrightarrow> (\<exists>i < j. unique_id (s ! i) \<notin> discard_set s \<and> nested_duplicate (s ! i) (s ! j)))"
    using g by blast
  from a b c' r d' e' g' f show ?thesis
    unfolding s_def by (intro conjI)
qed

theorem advanced_deduplication_rule_witness:
  "sorted_elements [ex_link, ex_wrapper, ex_inner] = [ex_wrapper, ex_inner, ex_link]
   \<and> distinct (map unique_id [ex_link, ex_wrapper, ex_inner])
   \<and> nested_duplicate ex_wrapper ex_inner
   \<and> unique_id ex_wrapper \<notin> discard_set (sorted_elements [ex_link, ex_wrapper, ex_inner])
   \<and> unique_id ex_inner \<in> discard_set (sorted_elements [ex_link, ex_wrapper, ex_inner])
   \<and> discard_set (sorted_elements [ex_link, ex_wrapper, ex_inner]) = {Some 12}
   \<and> advanced_deduplication [ex_link, ex_wrapper, ex_inner] = [ex_link, ex_wrapper]"
proof -
  have s: "sorted_elements [ex_link, ex_wrapper, ex_inner] = [ex_wrapper, ex_inner, ex_link]"
    by code_simp
  have di: "distinct (map unique_id [ex_link, ex_wrapper, ex_inner])" by code_simp
  have n: "nested_duplicate ex_wrapper ex_inner" by code_simp
  have k: "unique_id ex_wrapper \<notin> discard_set (sorted_elements [ex_link, ex_wrapper, ex_inner])"
    by code_simp
  have v: "discard_set (sorted_elements [ex_link, ex_wrapper, ex_inner]) = {Some 12}"
    by code_simp
  have r: "advanced_deduplication [ex_link, ex_wrapper, ex_inner] = [ex_link, ex_wrapper]"
    by code_simp
  have "(1::nat) < length [ex_link, ex_wrapper, ex_inner]" by simp
  with advanced_deduplication_rule[of "[ex_link, ex_wrapper, ex_inner]"] di
  have "unique_id (sorted_elements [ex_link, ex_wrapper, ex_inner] ! 1)
          \<in> discard_set (sorted_elements [ex_link, ex_wrapper, ex_inner])
        \<longleftrightarrow> (\<exists>i < 1. unique_id (sorted_elements [ex_link, ex_wrapper, ex_inner] ! i)
                          \<notin> discard_set (sorted_elements [ex_link, ex_wrapper, ex_inner])
                      \<and> nested_duplicate (sorted_elements [ex_link, ex_wrapper, ex_inner] ! i)
                                          (sorted_elements [ex_link, ex_wrapper, ex_inner] ! 1))"
    by blast
  moreover have "\<exists>i < (1::nat). unique_id (sorted_elements [ex_link, ex_wrapper, ex_inner] ! i)
                          \<notin> discard_set (sorted_elements [ex_link, ex_wrapper, ex_inner])
                      \<and> nested_duplicate (sorted_elements [ex_link, ex_wrapper, ex_inner] ! i)
                                          (sorted_elements [ex_link, ex_wrapper, ex_inner] ! 1)"
    using n k unfolding s by (intro exI[of _ 0]) simp
  ultimately have "unique_id (sorted_elements [ex_link, ex_wrapper, ex_inner] ! 1)
          \<in> discard_set (sorted_elements [ex_link, ex_wrapper, ex_inner])" by simp
  then have "unique_id ex_inner \<in> discard_set (sorted_elements [ex_link, ex_wrapper, ex_inner])"
    unfolding s by simp
  with s di n k v r show ?thesis by simp
qed

text \<open>
  The claim as it is written fails on two inputs. In the first, the link is one level below the
  block and has its class, but the block is itself discarded as a duplicate of the wrapper, the
  pair (block, link) is skipped, and the link stays. In the second, box and icon have the same
  (empty) text and the icon is one level below the box, and the icon stays.
\<close>

theorem advanced_deduplication_counterexample:
  "sorted_elements [ex_link, ex_wrapper, ex_inner] = [ex_wrapper, ex_inner, ex_link]
   \<and> prefix (get_str (xpath ex_inner)) (get_str (xpath ex_link))
   \<and> get_str (xpath ex_inner) \<noteq> get_str (xpath ex_link)
   \<and> count_list (get_str (xpath ex_link)) CHR ''/'' = count_list (get_str (xpath ex_inner)) CHR ''/'' + 1
   \<and> class_names ex_inner = class_names ex_link
   \<and> ex_link \<in> set (advanced_deduplication [ex_link, ex_wrapper, ex_inner])
   \<and> sorted_elements [ex_box, ex_icon] = [ex_box, ex_icon]
   \<and> prefix (get_str (xpath ex_box)) (get_str (xpath ex_icon))
   \<and> count_list (get_str (xpath ex_icon)) CHR ''/'' = count_list (get_str (xpath ex_box)) CHR ''/'' + 1
   \<and> text_attr ex_box = text_attr ex_icon
   \<and> ex_icon \<in> set (advanced_deduplication [ex_box, ex_icon])"
  by code_simp

subsection \<open>The de-duplication pipeline\<close>












subsection \<open>The click test\<close>

lemmas step_defs = pre_click_def locate_step_def scroll_step_def clickable_step_def click_step_def

lemma test_ready:
  assumes "pre_click ei d (initial_result ei d) = Ready u0 t0 h0 r log"
      and "current_url_after d = Inr u1" and "title_after d = Inr t1" and "body_hash_after d = Inr h1"
  shows "test_element_click_with_driver ei d =
     ((classify ei u0 t0 u1 t1 (wait_until_changed h0 (polled_hashes d)) (fst (probe_ui d)) (snd (probe_ui d))
         (r\<lparr>url_after := u1\<rparr>))\<lparr>dom_hash_before := Some h0, dom_hash_after := Some h1\<rparr>, log)"
  using assms
  by (simp add: test_element_click_with_driver_def click_body_def observe_def Let_def split: prod.splits)

text \<open>
  Claim C1. When the click went through and the page could be read again, the status follows
  the first test that holds, in this order: the URL differs, the title differs, the wait saw
  a changed content digest, a modal or dropdown is present, the dead pattern matches, none of
  these. In particular a changed URL gives \<^verbatim>\<open>active_navigation\<close> whatever the wait saw.
\<close>

theorem classification_priority:
  assumes "pre_click ei d (initial_result ei d) = Ready u0 t0 h0 r log"
      and "current_url_after d = Inr u1" and "title_after d = Inr t1" and "body_hash_after d = Inr h1"
  shows "(u1 \<noteq> u0 \<longrightarrow>
            click_status (fst (test_element_click_with_driver ei d)) = ''active_navigation'')
       \<and> (u1 = u0 \<and> t1 \<noteq> t0 \<longrightarrow>
            click_status (fst (test_element_click_with_driver ei d)) = ''active_title_change'')
       \<and> (u1 = u0 \<and> t1 = t0 \<and> wait_until_changed h0 (polled_hashes d) \<longrightarrow>
            click_status (fst (test_element_click_with_driver ei d)) = ''active_dom_change'')
       \<and> (u1 = u0 \<and> t1 = t0 \<and> \<not> wait_until_changed h0 (polled_hashes d)
            \<and> (fst (probe_ui d) \<noteq> [] \<or> snd (probe_ui d) \<noteq> []) \<longrightarrow>
            click_status (fst (test_element_click_with_driver ei d)) = ''active_ui_change'')
       \<and> (u1 = u0 \<and> t1 = t0 \<and> \<not> wait_until_changed h0 (polled_hashes d)
            \<and> fst (probe_ui d) = [] \<and> snd (probe_ui d) = [] \<and> is_dead_click_by_href ei \<longrightarrow>
            click_status (fst (test_element_click_with_driver ei d)) = ''dead_click''
            \<and> error_message (fst (test_element_click_with_driver ei d))
                = ''Dead click: suspicious href or onclick and no visible effect'')
       \<and> (u1 = u0 \<and> t1 = t0 \<and> \<not> wait_until_changed h0 (polled_hashes d)
            \<and> fst (probe_ui d) = [] \<and> snd (probe_ui d) = [] \<and> \<not> is_dead_click_by_href ei \<longrightarrow>
            click_status (fst (test_element_click_with_driver ei d)) = ''dead_click''
            \<and> error_message (fst (test_element_click_with_driver ei d))
                = ''Dead click: no visible effect after click'')"
  unfolding test_ready[OF assms] by (simp add: classify_def Let_def)

theorem classification_priority_witness:
  "current_url_after ex_driver = Inr ''http://site/about''
   \<and> current_url_before ex_driver = Inr ''http://site/''
   \<and> wait_until_changed ''h0'' (polled_hashes ex_driver)
   \<and> click_status (fst (test_element_click_with_driver ex_anchor ex_driver)) = ''active_navigation''"
proof -
  have p: "pre_click ex_anchor ex_driver (initial_result ex_anchor ex_driver)
      = Ready ''http://site/'' ''Home'' ''h0''
          ((initial_result ex_anchor ex_driver)\<lparr>url_before := ''http://site/''\<rparr>)
          [Relocate, ScrollIntoView, PointerClick]"
    by (simp add: step_defs ex_driver_def ex_anchor_def mk_def Let_def)
  have u: "current_url_after ex_driver = Inr ''http://site/about''"
    and t: "title_after ex_driver = Inr ''Home''"
    and h: "body_hash_after ex_driver = Inr ''h1''"
    and b: "current_url_before ex_driver = Inr ''http://site/''"
    and w: "wait_until_changed ''h0'' (polled_hashes ex_driver)"
    by (simp_all add: ex_driver_def)
  have ne: "''http://site/about'' \<noteq> ''http://site/''" by simp
  from classification_priority[OF p u t h] ne u b w show ?thesis by simp
qed

text \<open>
  Claim C5. When the three runs of the re-location chain each return no element, the status is
  \<^verbatim>\<open>element_not_found\<close> with its message, and the commands sent to the browser are the three
  runs and nothing else: neither click is attempted.
\<close>

theorem retry_exhaustion:
  assumes "current_url_before d = Inr u0" and "title_before d = Inr t0" and "body_hash_before d = Inr h0"
      and "found (locate d 0) = None" and "found (locate d 1) = None" and "found (locate d 2) = None"
  shows "click_status (fst (test_element_click_with_driver ei d)) = ''element_not_found''
       \<and> error_message (fst (test_element_click_with_driver ei d))
            = ''Element could not be located for clicking (after retries)''
       \<and> snd (test_element_click_with_driver ei d) = [Relocate, Relocate, Relocate]
       \<and> PointerClick \<notin> set (snd (test_element_click_with_driver ei d))
       \<and> JsClick \<notin> set (snd (test_element_click_with_driver ei d))"
proof -
  have "relocate (locate d) [0, 1, 2] None [] = Inr (None, [Relocate, Relocate, Relocate])"
    using assms(4-6) by (simp add: Let_def)
  with assms(1-3) show ?thesis
    by (simp add: test_element_click_with_driver_def click_body_def pre_click_def locate_step_def scroll_step_def clickable_step_def click_step_def Let_def)
qed

theorem retry_exhaustion_witness:
  "found (locate ex_driver_missing 0) = None
   \<and> found (locate ex_driver_missing 1) = None
   \<and> found (locate ex_driver_missing 2) = None
   \<and> click_status (fst (test_element_click_with_driver ex_anchor ex_driver_missing)) = ''element_not_found''
   \<and> snd (test_element_click_with_driver ex_anchor ex_driver_missing) = [Relocate, Relocate, Relocate]"
proof -
  have a: "current_url_before ex_driver_missing = Inr ''http://site/''"
    and b: "title_before ex_driver_missing = Inr ''Home''"
    and c: "body_hash_before ex_driver_missing = Inr ''h0''"
    and l0: "found (locate ex_driver_missing 0) = None"
    and l1: "found (locate ex_driver_missing 1) = None"
    and l2: "found (locate ex_driver_missing 2) = None"
    by (simp_all add: ex_driver_missing_def ex_driver_def)
  from retry_exhaustion[OF a b c l0 l1 l2, of ex_anchor] l0 l1 l2 show ?thesis by simp
qed

lemma relocate_log:
  "relocate loc as el log = Inr (res, log') \<Longrightarrow> set log' \<subseteq> set log \<union> {Relocate}"
  "relocate loc as el log = Inl (e, log') \<Longrightarrow> set log' \<subseteq> set log \<union> {Relocate}"
  by (induction loc as el log rule: relocate.induct;
      fastforce simp: Let_def split: option.splits sum.splits bool.splits)+

text \<open>
  Claim C10. When the re-location loop ends with an element and, after the scroll, the element
  is not displayed or not enabled, the status is \<^verbatim>\<open>not_clickable\<close> with its message, a status
  other than \<^verbatim>\<open>element_not_found\<close> and \<^verbatim>\<open>error\<close>, and neither click is attempted.
\<close>

theorem not_clickable_after_scroll:
  assumes "current_url_before d = Inr u0" and "title_before d = Inr t0" and "body_hash_before d = Inr h0"
      and "relocate (locate d) [0, 1, 2] None [] = Inr (Some element, log)"
      and "scroll_into_view d = Inr ()"
      and "displayed_after_scroll d = Inr False
           \<or> (displayed_after_scroll d = Inr True \<and> enabled_after_scroll d = Inr False)"
  shows "click_status (fst (test_element_click_with_driver ei d)) = ''not_clickable''
       \<and> error_message (fst (test_element_click_with_driver ei d)) = ''Element is not displayed or enabled''
       \<and> click_status (fst (test_element_click_with_driver ei d)) \<noteq> ''element_not_found''
       \<and> click_status (fst (test_element_click_with_driver ei d)) \<noteq> ''error''
       \<and> PointerClick \<notin> set (snd (test_element_click_with_driver ei d))
       \<and> JsClick \<notin> set (snd (test_element_click_with_driver ei d))"
proof -
  from relocate_log(1)[OF assms(4)] have log: "PointerClick \<notin> set log" "JsClick \<notin> set log" by auto
  from assms(6) show ?thesis
  proof
    assume "displayed_after_scroll d = Inr False"
    with assms(1-5) log show ?thesis
      by (simp add: test_element_click_with_driver_def click_body_def pre_click_def locate_step_def scroll_step_def clickable_step_def click_step_def Let_def)
  next
    assume "displayed_after_scroll d = Inr True \<and> enabled_after_scroll d = Inr False"
    with assms(1-5) log show ?thesis
      by (simp add: test_element_click_with_driver_def click_body_def pre_click_def locate_step_def scroll_step_def clickable_step_def click_step_def Let_def)
  qed
qed

theorem not_clickable_after_scroll_witness:
  "relocate (locate ex_driver_hidden) [0, 1, 2] None [] = Inr (Some 7, [Relocate])
   \<and> displayed_after_scroll ex_driver_hidden = Inr False
   \<and> click_status (fst (test_element_click_with_driver ex_anchor ex_driver_hidden)) = ''not_clickable''
   \<and> PointerClick \<notin> set (snd (test_element_click_with_driver ex_anchor ex_driver_hidden))"
proof -
  have a: "current_url_before ex_driver_hidden = Inr ''http://site/''"
    and b: "title_before ex_driver_hidden = Inr ''Home''"
    and c: "body_hash_before ex_driver_hidden = Inr ''h0''"
    and l: "relocate (locate ex_driver_hidden) [0, 1, 2] None [] = Inr (Some 7, [Relocate])"
    and s: "scroll_into_view ex_driver_hidden = Inr ()"
    and v: "displayed_after_scroll ex_driver_hidden = Inr False"
    by (simp_all add: ex_driver_hidden_def ex_driver_def Let_def)
  from v have dv: "displayed_after_scroll ex_driver_hidden = Inr False
      \<or> (displayed_after_scroll ex_driver_hidden = Inr True \<and> enabled_after_scroll ex_driver_hidden = Inr False)"
    by simp
  from not_clickable_after_scroll[OF a b c l s dv, of ex_anchor] l v show ?thesis by simp
qed



subsection \<open>The batch loop\<close>























subsection \<open>Aggregation\<close>

lemma fold_collect:
  "results (fold collect cs t) = results t @ concat (map (\<lambda>c. case c of Inl e \<Rightarrow> [] | Inr rs \<Rightarrow> rs) cs)
   \<and> elements_tested (fold collect cs t)
       = elements_tested t + length (concat (map (\<lambda>c. case c of Inl e \<Rightarrow> [] | Inr rs \<Rightarrow> rs) cs))
   \<and> active_clicks (fold collect cs t) = active_clicks t
   \<and> dead_clicks (fold collect cs t) = dead_clicks t
   \<and> errors (fold collect cs t) = errors t"
  by (induction cs arbitrary: t) (auto simp: collect_def split: sum.splits)

lemma fold_tally:
  "results (fold tally rs t) = results t
   \<and> elements_tested (fold tally rs t) = elements_tested t
   \<and> active_clicks (fold tally rs t)
       = active_clicks t + length (filter (\<lambda>r. prefix ''active'' (click_status r)) rs)
   \<and> dead_clicks (fold tally rs t)
       = dead_clicks t + length (filter (\<lambda>r. click_status r = ''dead_click'') rs)
   \<and> errors (fold tally rs t)
       = errors t + length (filter (\<lambda>r. \<not> prefix ''active'' (click_status r)
                                         \<and> click_status r \<noteq> ''dead_click'') rs)"
proof (induction rs arbitrary: t)
  case Nil
  then show ?case by simp
next
  case (Cons r rs)
  have nd: "\<not> prefix ''active'' ''dead_click''" by simp
  show ?case
  proof (cases "prefix ''active'' (click_status r)")
    case True
    then have "click_status r \<noteq> ''dead_click''" using nd by auto
    with True Cons.IH[of "tally r t"] show ?thesis by (simp add: tally_def)
  next
    case False
    with Cons.IH[of "tally r t"] show ?thesis by (simp add: tally_def)
  qed
qed

lemma filter_three_way:
  "length (filter P xs) + length (filter (\<lambda>x. \<not> P x \<and> Q x) xs)
     + length (filter (\<lambda>x. \<not> P x \<and> \<not> Q x) xs) = length xs"
  by (induction xs) auto

text \<open>
  Claim C7. After the aggregation, \<^verbatim>\<open>results\<close> holds the results of the batches that
  completed, \<^verbatim>\<open>active_clicks\<close> counts those whose status starts with \<^verbatim>\<open>active\<close>,
  \<^verbatim>\<open>dead_clicks\<close> those whose status is \<^verbatim>\<open>dead_click\<close>, \<^verbatim>\<open>errors\<close> all others (the five
  error statuses among them), the three counters add up to \<^verbatim>\<open>elements_tested\<close>, and
  \<^verbatim>\<open>elements_tested\<close> is the number of results.
\<close>

theorem aggregation_counts:
  "results (aggregate completed) = concat (map (\<lambda>c. case c of Inl e \<Rightarrow> [] | Inr rs \<Rightarrow> rs) completed)
   \<and> active_clicks (aggregate completed)
       = length (filter (\<lambda>r. prefix ''active'' (click_status r)) (results (aggregate completed)))
   \<and> dead_clicks (aggregate completed)
       = length (filter (\<lambda>r. click_status r = ''dead_click'') (results (aggregate completed)))
   \<and> errors (aggregate completed)
       = length (filter (\<lambda>r. \<not> prefix ''active'' (click_status r) \<and> click_status r \<noteq> ''dead_click'')
                  (results (aggregate completed)))
   \<and> active_clicks (aggregate completed) + dead_clicks (aggregate completed) + errors (aggregate completed)
       = elements_tested (aggregate completed)
   \<and> elements_tested (aggregate completed) = length (results (aggregate completed))
   \<and> (\<forall>s \<in> set [''element_not_found'', ''not_clickable'', ''click_intercepted'', ''error'', ''batch_error''].
         \<not> prefix ''active'' s \<and> s \<noteq> ''dead_click'')"
proof -
  define t0 where "t0 = \<lparr>elements_tested = 0, active_clicks = 0, dead_clicks = 0, errors = 0, results = []\<rparr>"
  define t1 where "t1 = fold collect completed t0"
  define rs where "rs = concat (map (\<lambda>c. case c of Inl e \<Rightarrow> [] | Inr rs \<Rightarrow> rs) completed)"
  have agg: "aggregate completed = fold tally (results t1) t1"
    unfolding aggregate_def t1_def t0_def by (simp add: Let_def)
  have c: "results t1 = rs" "elements_tested t1 = length rs" "active_clicks t1 = 0"
      "dead_clicks t1 = 0" "errors t1 = 0"
    using fold_collect[of completed t0] unfolding t1_def rs_def t0_def by simp_all
  have r: "results (aggregate completed) = rs" and e: "elements_tested (aggregate completed) = length rs"
    and a: "active_clicks (aggregate completed) = length (filter (\<lambda>r. prefix ''active'' (click_status r)) rs)"
    and d: "dead_clicks (aggregate completed) = length (filter (\<lambda>r. click_status r = ''dead_click'') rs)"
    and er: "errors (aggregate completed)
       = length (filter (\<lambda>r. \<not> prefix ''active'' (click_status r) \<and> click_status r \<noteq> ''dead_click'') rs)"
    unfolding agg using fold_tally[of "results t1" t1] c by simp_all
  have nd: "\<not> prefix ''active'' ''dead_click''" by simp
  have d': "filter (\<lambda>r. click_status r = ''dead_click'') rs
      = filter (\<lambda>r. \<not> prefix ''active'' (click_status r) \<and> click_status r = ''dead_click'') rs"
    using nd by (intro filter_cong) auto
  have total: "active_clicks (aggregate completed) + dead_clicks (aggregate completed)
      + errors (aggregate completed) = length rs"
    unfolding a d er d'
    using filter_three_way[of "\<lambda>r. prefix ''active'' (click_status r)" rs "\<lambda>r. click_status r = ''dead_click''"]
    by simp
  have names: "\<forall>s \<in> set [''element_not_found'', ''not_clickable'', ''click_intercepted'', ''error'', ''batch_error''].
         \<not> prefix ''active'' s \<and> s \<noteq> ''dead_click''"
    by simp
  show ?thesis
    using r e a d er total names unfolding rs_def by simp
qed

theorem aggregation_counts_witness:
  "active_clicks (aggregate [Inr [ex_result ''active_navigation'', ex_result ''dead_click''],
                             Inl (OtherException ''worker died''),
                             Inr [ex_result ''element_not_found'', ex_result ''batch_error'',
                                  ex_result ''active_ui_change'']]) = 2
   \<and> dead_clicks (aggregate [Inr [ex_result ''active_navigation'', ex_result ''dead_click''],
                             Inl (OtherException ''worker died''),
                             Inr [ex_result ''element_not_found'', ex_result ''batch_error'',
                                  ex_result ''active_ui_change'']]) = 1
   \<and> errors (aggregate [Inr [ex_result ''active_navigation'', ex_result ''dead_click''],
                             Inl (OtherException ''worker died''),
                             Inr [ex_result ''element_not_found'', ex_result ''batch_error'',
                                  ex_result ''active_ui_change'']]) = 2
   \<and> elements_tested (aggregate [Inr [ex_result ''active_navigation'', ex_result ''dead_click''],
                             Inl (OtherException ''worker died''),
                             Inr [ex_result ''element_not_found'', ex_result ''batch_error'',
                                  ex_result ''active_ui_change'']]) = 5"
  using aggregation_counts[of "[Inr [ex_result ''active_navigation'', ex_result ''dead_click''],
                             Inl (OtherException ''worker died''),
                             Inr [ex_result ''element_not_found'', ex_result ''batch_error'',
                                  ex_result ''active_ui_change'']]"]
  by (simp add: ex_result_def)

end
